theory Spec2Isabelle
  imports
    Complex_Main
    "HOL-Library.Char_ord"
    "HOL-Library.List_Lexorder"
    "HOL-Library.Product_Lexorder"
begin

section \<open>The guessing game of app.py\<close>

text \<open>
  The application is a Flask program over an SQLite store.  Every route is modelled as a
  function from the request's data, the session (the signed cookie, a dictionary) and the
  store to a response, the new session and the new store.  The names are those of app.py.
  The route input_songs only writes the tables \<open>people\<close> and \<open>tracks\<close>; it reads and
  writes no session key, and a session meets it as a change of the store between two of
  its requests.  The route index only redirects to quiz.
\<close>

subsection \<open>Python values: exceptions, binary64 floats\<close>

datatype py_error =
    ZeroDivisionError | OverflowError | TypeError | IndexError | ValueError | IntegrityError

text \<open>
  Python computes \<^verbatim>\<open>int((right / total) * 100)\<close> in binary64: \<^verbatim>\<open>/\<close> on two ints is the
  correctly rounded quotient, \<^verbatim>\<open>* 100\<close> is a float product (round to nearest, ties to
  even), \<^verbatim>\<open>int\<close> truncates towards zero.  A finite float is a pair \<open>(m, e)\<close> of integers
  standing for \<open>m * 2 ^ e\<close>, with at most 53 bits in \<open>m\<close> and \<open>e \<ge> -1074\<close>.
\<close>

function bit_length :: "int \<Rightarrow> int" where
  "bit_length n = (if 0 < n then bit_length (n div 2) + 1 else 0)"
  by pat_completeness auto
termination
  by (relation "measure nat") auto

declare bit_length.simps [simp del]

definition rdiv_even :: "int \<Rightarrow> int \<Rightarrow> int" where
  \<comment> \<open>\<open>a / b\<close> rounded to the nearest integer, ties to even (\<open>0 \<le> a\<close>, \<open>0 < b\<close>)\<close>
  "rdiv_even a b =
     (let q = a div b; r = a mod b
      in if 2 * r < b then q else if b < 2 * r then q + 1 else if even q then q else q + 1)"

definition flog2 :: "int \<Rightarrow> int \<Rightarrow> int" where
  \<comment> \<open>the integer part of the binary logarithm of \<open>a / b\<close> (\<open>0 < a\<close>, \<open>0 < b\<close>)\<close>
  "flog2 a b =
     (let k = bit_length a - bit_length b
      in if (if 0 \<le> k then b * 2 ^ nat k \<le> a else b \<le> a * 2 ^ nat (- k)) then k else k - 1)"

type_synonym float64 = "int \<times> int"

definition round64 :: "int \<Rightarrow> int \<Rightarrow> float64" where
  \<comment> \<open>the binary64 number nearest to \<open>a / b\<close> (\<open>0 < b\<close>); subnormals have exponent \<open>-1074\<close>\<close>
  "round64 a b =
     (if a = 0 then (0, 0)
      else let e = max (flog2 \<bar>a\<bar> b - 52) (- 1074);
               m = (if 0 \<le> e then rdiv_even \<bar>a\<bar> (b * 2 ^ nat e)
                    else rdiv_even (\<bar>a\<bar> * 2 ^ nat (- e)) b)
           in (sgn a * m, e))"

definition is_inf :: "float64 \<Rightarrow> bool" where
  \<comment> \<open>the rounded magnitude has reached \<open>2 ^ 1024\<close>\<close>
  "is_inf x = (1024 < bit_length \<bar>fst x\<bar> + snd x)"

definition float_mul_int :: "float64 \<Rightarrow> int \<Rightarrow> float64" where
  "float_mul_int x n =
     (let (m, e) = x
      in if 0 \<le> e then round64 (m * n * 2 ^ nat e) 1 else round64 (m * n) (2 ^ nat (- e)))"

definition float_div_int :: "float64 \<Rightarrow> int \<Rightarrow> float64" where
  \<comment> \<open>a float divided by a non-zero integer that a float holds exactly\<close>
  "float_div_int x n =
     (let (m, e) = x
      in if 0 \<le> e then round64 (sgn n * m * 2 ^ nat e) \<bar>n\<bar>
         else round64 (sgn n * m) (\<bar>n\<bar> * 2 ^ nat (- e)))"

definition py_truediv :: "int \<Rightarrow> int \<Rightarrow> py_error + float64" where
  "py_truediv a b =
     (if b = 0 then Inl ZeroDivisionError
      else let q = round64 (sgn b * a) \<bar>b\<bar>
           in if is_inf q then Inl OverflowError else Inr q)"

definition py_int :: "float64 \<Rightarrow> py_error + int" where
  "py_int x =
     (let (m, e) = x
      in if is_inf x then Inl OverflowError
         else if 0 \<le> e then Inr (m * 2 ^ nat e)
         else Inr (sgn m * (\<bar>m\<bar> div 2 ^ nat (- e))))"

definition percent_of :: "int \<Rightarrow> int \<Rightarrow> py_error + int" where
  \<comment> \<open>\<^verbatim>\<open>int((a / b) * 100) if b > 0 else 0\<close>, in quiz and in enter_name\<close>
  "percent_of a b =
     (if 0 < b then
        (case py_truediv a b of
           Inl err \<Rightarrow> Inl err
         | Inr q \<Rightarrow> py_int (float_mul_int q 100))
      else Inr 0)"

subsection \<open>The store: four tables\<close>

record person =
  p_id :: nat
  p_name :: string

record track =
  person_id :: nat
  track_id :: string
  pos :: nat

record lb_entry =
  lb_name :: string
  lb_right :: int
  lb_total :: int
  lb_percent :: int
  created_at :: nat

record stats =
  correct_guesses :: int
  total_guesses :: int

text \<open>
  Rows are kept in insertion order.  \<open>person_stats\<close> has \<open>person_id\<close> as its primary key,
  so it is a map.
\<close>

record db =
  people :: "person list"
  tracks :: "track list"
  leaderboard :: "lb_entry list"
  person_stats :: "nat \<Rightarrow> stats option"

subsection \<open>The session\<close>

record score_t =
  sc_right :: int
  sc_total :: int

record guess_result =
  chosen :: "string option"
  correct :: string
  is_right :: bool

record hist_entry = guess_result +
  round_tracks :: "string list"

text \<open>
  One field per key that app.py stores; \<open>None\<close> is an absent key.  \<open>remaining_people\<close> can
  also hold Python's \<open>None\<close> (guess stores it when the list runs empty): that is
  \<open>Some None\<close>.  \<open>other_keys\<close> is whatever else the cookie holds.
\<close>

record session =
  remaining_people :: "nat list option option"
  all_shown :: "bool option"
  current_person_id :: "nat option"
  correct_person_id :: "nat option"
  current_track_ids :: "string list option"
  total_people :: "nat option"
  score :: "score_t option"
  history :: "hist_entry list option"
  last_result :: "guess_result option"
  name_submitted :: "bool option"
  other_keys :: "(string \<times> string) list"

definition empty_session :: session where
  "empty_session =
     \<lparr>remaining_people = None, all_shown = None, current_person_id = None,
      correct_person_id = None, current_track_ids = None, total_people = None,
      score = None, history = None, last_result = None, name_submitted = None,
      other_keys = []\<rparr>"

definition truthy :: "bool option \<Rightarrow> bool" where
  \<comment> \<open>\<^verbatim>\<open>session.get(k)\<close> used as a condition\<close>
  "truthy b = (b = Some True)"

definition score_of :: "session \<Rightarrow> score_t" where
  \<comment> \<open>\<^verbatim>\<open>session.get("score", {"right": 0, "total": 0})\<close>\<close>
  "score_of s = (case score s of None \<Rightarrow> \<lparr>sc_right = 0, sc_total = 0\<rparr> | Some sc \<Rightarrow> sc)"

definition history_of :: "session \<Rightarrow> hist_entry list" where
  \<comment> \<open>\<^verbatim>\<open>session.get("history", [])\<close>\<close>
  "history_of s = (case history s of None \<Rightarrow> [] | Some h \<Rightarrow> h)"

subsection \<open>The random module\<close>

text \<open>
  The numbers that the random source hands out during one request.  \<open>choice\<close> takes the
  element at a random index; \<open>sample\<close> of two takes two different positions, in either
  order; \<open>shuffle\<close> swaps from the last position down.
\<close>

record rnd =
  choice_r :: nat
  sample_r1 :: nat
  sample_r2 :: nat
  shuffle_r1 :: nat
  shuffle_r2 :: nat

definition random_choice :: "nat \<Rightarrow> 'a list \<Rightarrow> 'a" where
  "random_choice r xs = xs ! (r mod length xs)"

definition random_sample2 :: "nat \<Rightarrow> nat \<Rightarrow> 'a list \<Rightarrow> 'a list" where
  "random_sample2 r1 r2 xs =
     (let i = r1 mod length xs;
          rest = take i xs @ drop (Suc i) xs
      in [xs ! i, rest ! (r2 mod length rest)])"

definition swap :: "nat \<Rightarrow> nat \<Rightarrow> 'a list \<Rightarrow> 'a list" where
  "swap i j xs = xs[i := xs ! j, j := xs ! i]"

definition random_shuffle3 :: "nat \<Rightarrow> nat \<Rightarrow> 'a list \<Rightarrow> 'a list" where
  \<comment> \<open>\<^verbatim>\<open>for i in (2, 1): j = randbelow(i + 1); x[i], x[j] = x[j], x[i]\<close>\<close>
  "random_shuffle3 r1 r2 xs = swap 1 (r2 mod 2) (swap 2 (r1 mod 3) xs)"

subsection \<open>Responses\<close>

record progress =
  pr_score :: score_t
  pr_total_people :: nat
  pr_percent :: int

record chameleon_row =
  ch_name :: string
  ch_correct :: int
  ch_total :: int
  ch_success_rate :: rat

record finished_view =
  fv_score :: score_t
  fv_last :: "guess_result option"
  fv_history :: "hist_entry list"
  fv_shared_tracks :: "(string \<times> string list) list"
  fv_leaderboard_entries :: "lb_entry list"
  fv_chameleon :: "chameleon_row option"
  fv_show_name_modal :: bool

datatype response =
    Redirect string
  | Page_empty
  | Page_need_more_players nat
  | Page_quiz "string list" "string list" progress
  | Json "string option" string bool score_t bool
  | Page_finished finished_view
  | Page_enter_name string
  | Page_leaderboard "lb_entry list"
  | Server_error py_error

subsection \<open>quiz\<close>

definition eligible :: "db \<Rightarrow> person list" where
  \<comment> \<open>the players with at least three track rows\<close>
  "eligible d =
     filter (\<lambda>p. 3 \<le> length (filter (\<lambda>t. person_id t = p_id p) (tracks d))) (people d)"

definition person_by_id :: "db \<Rightarrow> nat \<Rightarrow> person option" where
  \<comment> \<open>\<^verbatim>\<open>SELECT ... FROM people WHERE id=?\<close>, \<^verbatim>\<open>fetchone()\<close>\<close>
  "person_by_id d i = find (\<lambda>p. p_id p = i) (people d)"

definition tracks_of :: "db \<Rightarrow> nat \<Rightarrow> string list" where
  \<comment> \<open>\<^verbatim>\<open>SELECT track_id FROM tracks WHERE person_id=? ORDER BY pos\<close>\<close>
  "tracks_of d i = map track_id (sort_key pos (filter (\<lambda>t. person_id t = i) (tracks d)))"

text \<open>
  An exception ends the request with a server error; the session keeps what the request
  had stored before it.  The list \<open>guessed_correctly\<close> that quiz builds from the history
  is never used and is left out.
\<close>

definition quiz :: "rnd \<Rightarrow> session \<Rightarrow> db \<Rightarrow> response \<times> session" where
  "quiz r s d =
     (let ppl = eligible d
      in if ppl = [] then (Page_empty, s)
         else if length ppl < 3 then (Page_need_more_players (length ppl), s)
         else if truthy (all_shown s) then (Redirect ''finished'', s)
         else
           let init = (case remaining_people s of Some (Some rem) \<Rightarrow> False | _ \<Rightarrow> True);
               remaining =
                 (case remaining_people s of Some (Some rem) \<Rightarrow> rem | _ \<Rightarrow> map p_id ppl);
               s1 = (if init then s\<lparr>remaining_people := Some (Some remaining)\<rparr> else s)
           in if remaining = [] then (Server_error IndexError, s1)
              else
                let pid = random_choice (choice_r r) remaining;
                    s2 = s1\<lparr>current_person_id := Some pid\<rparr>;
                    track_ids = tracks_of d pid
                in case person_by_id d pid of
                     None \<Rightarrow> (Server_error TypeError, s2)
                   | Some correct_person \<Rightarrow>
                       let correct_name = p_name correct_person;
                           other_names = map p_name (filter (\<lambda>p. p_id p \<noteq> pid) ppl)
                       in if length other_names < 2 then (Server_error ValueError, s2)
                          else
                            let distractors =
                                  random_sample2 (sample_r1 r) (sample_r2 r) other_names;
                                names =
                                  random_shuffle3 (shuffle_r1 r) (shuffle_r2 r)
                                    (correct_name # distractors);
                                s3 = s2\<lparr>correct_person_id := Some pid,
                                        current_track_ids := Some track_ids\<rparr>;
                                tp = (case total_people s3 of
                                        None \<Rightarrow> length (people d)
                                      | Some n \<Rightarrow> n);
                                s4 = (case total_people s3 of
                                        None \<Rightarrow> s3\<lparr>total_people := Some tp\<rparr>
                                      | Some n \<Rightarrow> s3);
                                sc = score_of s4
                            in case percent_of (sc_total sc) (int tp) of
                                 Inl err \<Rightarrow> (Server_error err, s4)
                               | Inr pc \<Rightarrow>
                                   (Page_quiz track_ids names
                                      \<lparr>pr_score = sc, pr_total_people = tp, pr_percent = pc\<rparr>,
                                    s4))"

subsection \<open>guess\<close>

definition bump_stats :: "bool \<Rightarrow> stats option \<Rightarrow> stats" where
  \<comment> \<open>the UPDATE of an existing row, the INSERT of a new one\<close>
  "bump_stats result existing =
     (case existing of
        Some st \<Rightarrow>
          (if result
           then st\<lparr>correct_guesses := correct_guesses st + 1,
                   total_guesses := total_guesses st + 1\<rparr>
           else st\<lparr>total_guesses := total_guesses st + 1\<rparr>)
      | None \<Rightarrow>
          (if result then \<lparr>correct_guesses = 1, total_guesses = 1\<rparr>
           else \<lparr>correct_guesses = 0, total_guesses = 1\<rparr>))"

text \<open>
  \<open>person_stats.person_id\<close> references \<open>people(id)\<close> and foreign keys are on, so the
  INSERT of a row for an id that \<open>people\<close> does not hold raises.  \<^verbatim>\<open>x in remaining\<close> raises
  when \<open>remaining\<close> is Python's \<open>None\<close>.
\<close>

definition guess :: "string option \<Rightarrow> session \<Rightarrow> db \<Rightarrow> response \<times> session \<times> db" where
  "guess chosen_name s d =
     (case correct_person_id s of
        None \<Rightarrow> (Redirect ''quiz'', s, d)
      | Some correct_id \<Rightarrow>
          let correct_name =
                (case person_by_id d correct_id of Some row \<Rightarrow> p_name row | None \<Rightarrow> ''Unknown'');
              result = (chosen_name = Some correct_name);
              existing = person_stats d correct_id
          in if existing = None \<and> person_by_id d correct_id = None
             then (Server_error IntegrityError, s, d)
             else
               let d' = d\<lparr>person_stats :=
                            (person_stats d)(correct_id \<mapsto> bump_stats result existing)\<rparr>;
                   sc0 = score_of s;
                   sc = \<lparr>sc_right = (if result then sc_right sc0 + 1 else sc_right sc0),
                         sc_total = sc_total sc0 + 1\<rparr>;
                   s1 = s\<lparr>score := Some sc\<rparr>
               in case (case remaining_people s1 of None \<Rightarrow> Some [] | Some v \<Rightarrow> v) of
                    None \<Rightarrow> (Server_error TypeError, s1, d')
                  | Some remaining \<Rightarrow>
                      let s2 =
                            (case current_person_id s1 of
                               None \<Rightarrow> s1
                             | Some cur \<Rightarrow>
                                 if cur \<in> set remaining
                                 then (let remaining' = remove1 cur remaining
                                       in if remaining' \<noteq> []
                                          then s1\<lparr>remaining_people := Some (Some remaining')\<rparr>
                                          else s1\<lparr>remaining_people := Some None,
                                                  all_shown := Some True\<rparr>)
                                 else s1);
                          tr = (case current_track_ids s2 of None \<Rightarrow> [] | Some t \<Rightarrow> t);
                          entry = \<lparr>chosen = chosen_name, correct = correct_name,
                                   is_right = result, round_tracks = tr\<rparr>;
                          s3 = s2\<lparr>history := Some (history_of s2 @ [entry])\<rparr>;
                          s4 = s3\<lparr>current_track_ids := None, correct_person_id := None\<rparr>;
                          s5 = s4\<lparr>last_result :=
                                    Some \<lparr>chosen = chosen_name, correct = correct_name,
                                          is_right = result\<rparr>\<rparr>
                      in (Json chosen_name correct_name result sc (truthy (all_shown s5)),
                          s5, d'))"

subsection \<open>finished\<close>

definition track_rows :: "db \<Rightarrow> (string \<times> string) list" where
  \<comment> \<open>\<^verbatim>\<open>SELECT t.track_id, p.name FROM tracks t JOIN people p ON t.person_id = p.id
      ORDER BY t.track_id\<close>\<close>
  "track_rows d =
     sort_key fst
       (concat (map (\<lambda>t. map (\<lambda>p. (track_id t, p_name p))
                             (filter (\<lambda>p. p_id p = person_id t) (people d)))
                    (tracks d)))"

definition add_owner ::
  "string \<times> string \<Rightarrow> (string \<times> string list) list \<Rightarrow> (string \<times> string list) list" where
  \<comment> \<open>one turn of the grouping loop; a dictionary keeps its keys in insertion order\<close>
  "add_owner row groups =
     (let (tid, owner) = row
      in if tid \<in> fst ` set groups
         then map (\<lambda>(k, owners). if k = tid then (k, owners @ [owner]) else (k, owners)) groups
         else groups @ [(tid, [owner])])"

definition sorted_reverse :: "('a \<Rightarrow> nat) \<Rightarrow> 'a list \<Rightarrow> 'a list" where
  \<comment> \<open>\<^verbatim>\<open>sorted(xs, key=f, reverse=True)\<close>: descending, equal keys keep their order\<close>
  "sorted_reverse f xs = rev (sort_key f (rev xs))"

definition shared_tracks :: "db \<Rightarrow> (string \<times> string list) list" where
  "shared_tracks d =
     sorted_reverse (\<lambda>g. length (snd g))
       (filter (\<lambda>g. 1 < length (snd g)) (foldl (\<lambda>groups row. add_owner row groups) [] (track_rows d)))"

definition leaderboard_rows :: "db \<Rightarrow> lb_entry list" where
  \<comment> \<open>\<^verbatim>\<open>ORDER BY percent DESC, right DESC, created_at ASC\<close>\<close>
  "leaderboard_rows d =
     sort_key (\<lambda>e. (- lb_percent e, - lb_right e, created_at e)) (leaderboard d)"

text \<open>
  The chameleon query orders by \<open>success_rate\<close>, the column
  \<^verbatim>\<open>ROUND(correct_guesses * 100.0 / total_guesses, 1)\<close>, then by \<open>total_guesses\<close>
  descending, and takes the first row.  The rate is a parameter of \<open>chameleon_by\<close>;
  \<open>success_rate\<close> is the rate of the query: the binary64 quotient, rounded to one decimal
  (half away from zero) and kept as an exact decimal.
\<close>

definition sql_round1 :: "float64 \<Rightarrow> rat" where
  "sql_round1 x =
     (let (m, e) = x;
          tenths = (if 0 \<le> e then \<bar>m\<bar> * 10 * 2 ^ nat e
                    else (\<bar>m\<bar> * 20 + 2 ^ nat (- e)) div 2 ^ nat (1 - e))
      in of_int (sgn m * tenths) / 10)"

definition success_rate :: "int \<Rightarrow> int \<Rightarrow> rat" where
  "success_rate c t = sql_round1 (float_div_int (float_mul_int (round64 c 1) 100) t)"

definition chameleon_rows :: "(int \<Rightarrow> int \<Rightarrow> rat) \<Rightarrow> db \<Rightarrow> chameleon_row list" where
  \<comment> \<open>\<^verbatim>\<open>FROM person_stats ps JOIN people p ON ps.person_id = p.id WHERE ps.total_guesses >= 3\<close>\<close>
  "chameleon_rows rate d =
     concat (map (\<lambda>p. case person_stats d (p_id p) of
                         None \<Rightarrow> []
                       | Some st \<Rightarrow>
                           if 3 \<le> total_guesses st
                           then [\<lparr>ch_name = p_name p, ch_correct = correct_guesses st,
                                  ch_total = total_guesses st,
                                  ch_success_rate = rate (correct_guesses st) (total_guesses st)\<rparr>]
                           else [])
                 (people d))"

definition chameleon_by :: "(int \<Rightarrow> int \<Rightarrow> rat) \<Rightarrow> db \<Rightarrow> chameleon_row option" where
  \<comment> \<open>\<^verbatim>\<open>ORDER BY success_rate ASC, ps.total_guesses DESC LIMIT 1\<close>, \<^verbatim>\<open>fetchone()\<close>\<close>
  "chameleon_by rate d =
     (case sort_key (\<lambda>row. (ch_success_rate row, - ch_total row)) (chameleon_rows rate d) of
        [] \<Rightarrow> None
      | row # rest \<Rightarrow> Some row)"

definition chameleon :: "db \<Rightarrow> chameleon_row option" where
  "chameleon d = chameleon_by success_rate d"

definition finished :: "session \<Rightarrow> db \<Rightarrow> response" where
  "finished s d =
     Page_finished
       \<lparr>fv_score = score_of s,
        fv_last = last_result s,
        fv_history = history_of s,
        fv_shared_tracks = shared_tracks d,
        fv_leaderboard_entries = take 5 (leaderboard_rows d),
        fv_chameleon = chameleon d,
        fv_show_name_modal = (truthy (all_shown s) \<and> \<not> truthy (name_submitted s))\<rparr>"

subsection \<open>enter_name, skip_name, leaderboard, reset\<close>

definition is_space :: "char \<Rightarrow> bool" where
  "is_space c = (c \<in> set [CHR '' '', CHR 0x09, CHR 0x0A, CHR 0x0B, CHR 0x0C, CHR 0x0D,
                          CHR 0x1C, CHR 0x1D, CHR 0x1E, CHR 0x1F])"

definition strip :: "string \<Rightarrow> string" where
  "strip str = rev (dropWhile is_space (rev (dropWhile is_space str)))"

text \<open>
  \<open>enter_name_post\<close> is the POST branch; its arguments are the form's \<open>name\<close> field and the
  store's clock, which stamps \<open>created_at\<close>.  \<open>enter_name_get\<close> is the GET branch.
\<close>

definition enter_name_post ::
  "string option \<Rightarrow> nat \<Rightarrow> session \<Rightarrow> db \<Rightarrow> response \<times> session \<times> db" where
  "enter_name_post form_name now s d =
     (if \<not> truthy (all_shown s) then (Redirect ''quiz'', s, d)
      else
        let player_name = strip (case form_name of None \<Rightarrow> [] | Some n \<Rightarrow> n)
        in if player_name = [] then (Page_enter_name ''Please enter your name.'', s, d)
           else
             let sc = score_of s;
                 right = sc_right sc;
                 total = sc_total sc
             in case percent_of right total of
                  Inl err \<Rightarrow> (Server_error err, s, d)
                | Inr percent \<Rightarrow>
                    (Redirect ''finished'',
                     s\<lparr>name_submitted := Some True\<rparr>,
                     d\<lparr>leaderboard :=
                          leaderboard d @
                          [\<lparr>lb_name = player_name, lb_right = right, lb_total = total,
                            lb_percent = percent, created_at = now\<rparr>]\<rparr>))"

definition enter_name_get :: "session \<Rightarrow> response" where
  "enter_name_get s =
     (if \<not> truthy (all_shown s) then Redirect ''quiz'' else Redirect ''finished'')"

definition skip_name :: "session \<Rightarrow> response \<times> session" where
  "skip_name s =
     (Redirect ''finished'',
      if truthy (all_shown s) \<and> \<not> truthy (name_submitted s)
      then s\<lparr>name_submitted := Some True\<rparr> else s)"

definition leaderboard_page :: "db \<Rightarrow> response" where
  "leaderboard_page d = Page_leaderboard (leaderboard_rows d)"

definition reset :: "session \<Rightarrow> response \<times> session" where
  "reset s =
     (Redirect ''quiz'',
      s\<lparr>remaining_people := None, all_shown := None, correct_person_id := None,
        last_result := None, score := None, history := None, current_track_ids := None,
        name_submitted := None\<rparr>)"

subsection \<open>Requests, and the runs of one session\<close>

datatype request =
    Quiz rnd
  | Guess "string option"
  | Finished
  | Enter_name_get
  | Enter_name_post "string option" nat
  | Skip_name
  | Leaderboard
  | Reset

fun handle :: "request \<Rightarrow> session \<Rightarrow> db \<Rightarrow> response \<times> session \<times> db" where
  "handle (Quiz r) s d = (let (resp, s') = quiz r s d in (resp, s', d))"
| "handle (Guess c) s d = guess c s d"
| "handle Finished s d = (finished s d, s, d)"
| "handle Enter_name_get s d = (enter_name_get s, s, d)"
| "handle (Enter_name_post n now) s d = enter_name_post n now s d"
| "handle Skip_name s d = (let (resp, s') = skip_name s in (resp, s', d))"
| "handle Leaderboard s d = (leaderboard_page d, s, d)"
| "handle Reset s d = (let (resp, s') = reset s in (resp, s', d))"

text \<open>
  Between two requests of a session the store changes by the requests of others: an
  \<open>Env\<close> event.  No statement of app.py deletes or changes a row of \<open>people\<close>, and \<open>id\<close> is
  its primary key, so such a change keeps the rows of \<open>people\<close> and their distinct ids; of
  the other tables nothing is assumed.
\<close>

definition wf_db :: "db \<Rightarrow> bool" where
  "wf_db d = distinct (map p_id (people d))"

definition db_evolves :: "db \<Rightarrow> db \<Rightarrow> bool" where
  "db_evolves d d' = (take (length (people d)) (people d') = people d \<and> wf_db d')"

datatype event = Request request | Env db

type_synonym world = "session \<times> db"

fun step :: "world \<Rightarrow> event \<Rightarrow> world" where
  "step (s, d) (Request rq) = snd (handle rq s d)"
| "step (s, d) (Env d') = (if db_evolves d d' then (s, d') else (s, d))"

fun run :: "world \<Rightarrow> event list \<Rightarrow> world" where
  "run w [] = w"
| "run w (ev # evs) = run (step w ev) evs"

inductive reachable :: "world \<Rightarrow> bool" where
  reachable_start: "wf_db d \<Longrightarrow> reachable (empty_session\<lparr>other_keys := ks\<rparr>, d)"
| reachable_step: "reachable w \<Longrightarrow> reachable (step w ev)"

subsection \<open>Predicates on sessions and runs\<close>

text \<open>
  \<open>session_inv\<close> collects what holds of every session that the routes can produce: the
  score counts the history, and the three shapes of \<open>remaining_people\<close> go with the other
  keys as stated.
\<close>

definition session_inv :: "world \<Rightarrow> bool" where
  "session_inv w =
     (let (s, d) = w
      in wf_db d \<and>
         sc_total (score_of s) = int (length (history_of s)) \<and>
         sc_right (score_of s) = int (length (filter is_right (history_of s))) \<and>
         (case remaining_people s of
            None \<Rightarrow>
              all_shown s = None \<and> correct_person_id s = None \<and> score s = None \<and>
              history s = None
          | Some None \<Rightarrow> all_shown s = Some True \<and> correct_person_id s = None
          | Some (Some rem) \<Rightarrow>
              rem \<noteq> [] \<and> distinct rem \<and> set rem \<subseteq> p_id ` set (people d) \<and>
              all_shown s = None \<and>
              (case correct_person_id s of
                 None \<Rightarrow> True
               | Some c \<Rightarrow> current_person_id s = Some c \<and> c \<in> set rem)))"

definition next_remaining :: "session \<Rightarrow> db \<Rightarrow> nat list" where
  "next_remaining s d =
     (case remaining_people s of Some (Some rem) \<Rightarrow> rem | _ \<Rightarrow> map p_id (eligible d))"

text \<open>
  A request is scored when guess answers it with its JSON result.  \<open>scored_subjects\<close>
  lists, along a run, the \<open>correct_person_id\<close> that each scored guess found in the session.
\<close>

definition scored :: "response \<Rightarrow> bool" where
  "scored resp = (case resp of Json a b c e f \<Rightarrow> True | _ \<Rightarrow> False)"

definition scored_subject :: "world \<Rightarrow> event \<Rightarrow> nat list" where
  "scored_subject w ev =
     (case ev of
        Request rq \<Rightarrow>
          if scored (fst (handle rq (fst w) (snd w)))
          then (case correct_person_id (fst w) of Some c \<Rightarrow> [c] | None \<Rightarrow> [])
          else []
      | Env d' \<Rightarrow> [])"

fun scored_subjects :: "world \<Rightarrow> event list \<Rightarrow> nat list" where
  "scored_subjects w [] = []"
| "scored_subjects w (ev # evs) = scored_subject w ev @ scored_subjects (step w ev) evs"

definition round_inv :: "nat list \<Rightarrow> nat list \<Rightarrow> session \<Rightarrow> bool" where
  "round_inv pool subj s =
     (distinct subj \<and> sc_total (score_of s) = int (length subj) \<and>
      (case remaining_people s of
         None \<Rightarrow> False
       | Some None \<Rightarrow> truthy (all_shown s) \<and> set subj = set pool
       | Some (Some rem) \<Rightarrow>
           \<not> truthy (all_shown s) \<and> rem \<noteq> [] \<and> distinct rem \<and>
           set rem \<union> set subj = set pool \<and> set rem \<inter> set subj = {}))"

subsection \<open>Example data\<close>

text \<open>Three players with three tracks each; A and B share the track abc.\<close>

definition ex_db :: db where
  "ex_db =
     \<lparr>people = [\<lparr>p_id = 1, p_name = ''A''\<rparr>, \<lparr>p_id = 2, p_name = ''B''\<rparr>,
                \<lparr>p_id = 3, p_name = ''C''\<rparr>],
      tracks = [\<lparr>person_id = 1, track_id = ''abc'', pos = 1\<rparr>,
                \<lparr>person_id = 1, track_id = ''xyz'', pos = 2\<rparr>,
                \<lparr>person_id = 1, track_id = ''a3'', pos = 3\<rparr>,
                \<lparr>person_id = 2, track_id = ''abc'', pos = 1\<rparr>,
                \<lparr>person_id = 2, track_id = ''b2'', pos = 2\<rparr>,
                \<lparr>person_id = 2, track_id = ''b3'', pos = 3\<rparr>,
                \<lparr>person_id = 3, track_id = ''c1'', pos = 1\<rparr>,
                \<lparr>person_id = 3, track_id = ''c2'', pos = 2\<rparr>,
                \<lparr>person_id = 3, track_id = ''c3'', pos = 3\<rparr>],
      leaderboard = [], person_stats = Map.empty\<rparr>"

definition ex_rnd :: "nat \<Rightarrow> rnd" where
  \<comment> \<open>a request whose \<open>random.choice\<close> draws index \<open>n\<close>\<close>
  "ex_rnd n = \<lparr>choice_r = n, sample_r1 = 0, sample_r2 = 0, shuffle_r1 = 0, shuffle_r2 = 0\<rparr>"

definition ex_pending :: session where
  \<comment> \<open>the session after its first round request: a round on player 1 is pending\<close>
  "ex_pending = snd (quiz (ex_rnd 0) empty_session ex_db)"

definition ex_rest :: "event list" where
  "ex_rest =
     [Request (Guess (Some ''A'')),
      Request (Quiz (ex_rnd 0)), Request (Guess None),
      Request (Quiz (ex_rnd 0)), Request (Guess (Some ''C''))]"

definition ex_play_all :: "event list" where
  \<comment> \<open>a whole game on \<open>ex_db\<close>: right, no choice, right\<close>
  "ex_play_all = Request (Quiz (ex_rnd 0)) # ex_rest"

definition ex_done_29_of_50 :: session where
  \<comment> \<open>a finished game over fifty players with 29 right answers, as far as enter_name reads it\<close>
  "ex_done_29_of_50 =
     empty_session\<lparr>remaining_people := Some None, all_shown := Some True,
                    score := Some \<lparr>sc_right = 29, sc_total = 50\<rparr>\<rparr>"

definition dup_db :: db where
  \<comment> \<open>one player, who entered the track abc twice\<close>
  "dup_db =
     \<lparr>people = [\<lparr>p_id = 1, p_name = ''A''\<rparr>],
      tracks = [\<lparr>person_id = 1, track_id = ''abc'', pos = 1\<rparr>,
                \<lparr>person_id = 1, track_id = ''abc'', pos = 2\<rparr>,
                \<lparr>person_id = 1, track_id = ''xyz'', pos = 3\<rparr>],
      leaderboard = [], person_stats = Map.empty\<rparr>"

definition cham_db :: db where
  \<comment> \<open>A was guessed 33 times out of 34, B 34 times out of 35\<close>
  "cham_db =
     ex_db\<lparr>person_stats :=
             [1 \<mapsto> \<lparr>correct_guesses = 33, total_guesses = 34\<rparr>,
              2 \<mapsto> \<lparr>correct_guesses = 34, total_guesses = 35\<rparr>]\<rparr>"

definition xyz_db :: db where
  \<comment> \<open>X = A at 1 of 4, Y = B at 2 of 3, Z = C at 0 of 2\<close>
  "xyz_db =
     ex_db\<lparr>person_stats :=
             [1 \<mapsto> \<lparr>correct_guesses = 1, total_guesses = 4\<rparr>,
              2 \<mapsto> \<lparr>correct_guesses = 2, total_guesses = 3\<rparr>,
              3 \<mapsto> \<lparr>correct_guesses = 0, total_guesses = 2\<rparr>]\<rparr>"

definition ex_db4 :: db where
  \<comment> \<open>\<open>ex_db\<close> with a fourth player\<close>
  "ex_db4 =
     ex_db\<lparr>people := people ex_db @ [\<lparr>p_id = 4, p_name = ''D''\<rparr>],
           tracks := tracks ex_db @
             [\<lparr>person_id = 4, track_id = ''d1'', pos = 1\<rparr>,
              \<lparr>person_id = 4, track_id = ''d2'', pos = 2\<rparr>,
              \<lparr>person_id = 4, track_id = ''d3'', pos = 3\<rparr>]\<rparr>"

definition ex_rnd_b :: rnd where
  "ex_rnd_b = \<lparr>choice_r = 1, sample_r1 = 2, sample_r2 = 0, shuffle_r1 = 0, shuffle_r2 = 0\<rparr>"

section \<open>Properties\<close>

subsection \<open>Reachable sessions\<close>

lemma eligible_subset: "set (eligible d) \<subseteq> set (people d)"
  by (auto simp: eligible_def)

lemma distinct_eligible: "wf_db d \<Longrightarrow> distinct (map p_id (eligible d))"
  by (simp add: wf_db_def eligible_def distinct_map_filter)

lemma filter_neq_absent: "a \<notin> f ` set xs \<Longrightarrow> filter (\<lambda>x. f x \<noteq> a) xs = xs"
  by (induction xs) auto

lemma length_filter_neq:
  "distinct (map f xs) \<Longrightarrow> length xs \<le> Suc (length (filter (\<lambda>x. f x \<noteq> a) xs))"
  by (induction xs) (auto simp: filter_neq_absent)

lemma others_ge2:
  assumes "wf_db d" and "3 \<le> length (eligible d)"
  shows "2 \<le> length (filter (\<lambda>p. p_id p \<noteq> i) (eligible d))"
  using length_filter_neq [OF distinct_eligible [OF assms(1)], of i] assms(2) by simp

lemma person_by_id_Some:
  assumes "i \<in> p_id ` set (people d)"
  shows "\<exists>p. person_by_id d i = Some p \<and> p_id p = i"
proof (cases "person_by_id d i")
  case None
  then show ?thesis
    using assms by (auto simp: person_by_id_def find_None_iff)
next
  case (Some p)
  then show ?thesis
    by (auto simp: person_by_id_def find_Some_iff)
qed

lemma random_choice_in: "xs \<noteq> [] \<Longrightarrow> random_choice r xs \<in> set xs"
  by (simp add: random_choice_def)

lemma next_remaining_props:
  assumes "session_inv (s, d)" and "3 \<le> length (eligible d)" and "\<not> truthy (all_shown s)"
  shows "next_remaining s d \<noteq> []" and "distinct (next_remaining s d)"
    and "set (next_remaining s d) \<subseteq> p_id ` set (people d)"
  using assms eligible_subset [of d] distinct_eligible [of d]
  by (auto simp: session_inv_def next_remaining_def truthy_def split: option.splits)

lemma quiz_session:
  assumes "session_inv (s, d)" and "3 \<le> length (eligible d)" and "\<not> truthy (all_shown s)"
  shows "snd (quiz r s d) =
         s\<lparr>remaining_people := Some (Some (next_remaining s d)),
           current_person_id := Some (random_choice (choice_r r) (next_remaining s d)),
           correct_person_id := Some (random_choice (choice_r r) (next_remaining s d)),
           current_track_ids := Some (tracks_of d (random_choice (choice_r r) (next_remaining s d))),
           total_people := Some (case total_people s of None \<Rightarrow> length (people d) | Some n \<Rightarrow> n)\<rparr>"
proof -
  let ?rem = "next_remaining s d"
  let ?pid = "random_choice (choice_r r) ?rem"
  have ne: "eligible d \<noteq> []" "\<not> length (eligible d) < 3"
    using assms(2) by auto
  have rem: "?rem \<noteq> []" and sub: "set ?rem \<subseteq> p_id ` set (people d)"
    using next_remaining_props [OF assms] by auto
  have "?pid \<in> set ?rem"
    using rem by (rule random_choice_in)
  then obtain p where p: "person_by_id d ?pid = Some p"
    using sub person_by_id_Some by blast
  have wf: "wf_db d"
    using assms(1) by (simp add: session_inv_def)
  have oth: "\<not> length (filter (\<lambda>p. p_id p \<noteq> ?pid) (eligible d)) < 2"
    using others_ge2 [OF wf assms(2), of ?pid] by simp
  have nx: "(case remaining_people s of Some (Some rem) \<Rightarrow> rem | _ \<Rightarrow> map p_id (eligible d)) = ?rem"
    by (simp add: next_remaining_def)
  show ?thesis
    using ne rem p oth assms(3)
    unfolding quiz_def Let_def nx
    by (cases "remaining_people s"; cases "total_people s")
       (auto split: option.splits sum.splits simp: next_remaining_def)
qed


lemma quiz_unchanged:
  "eligible d = [] \<or> length (eligible d) < 3 \<or> truthy (all_shown s) \<Longrightarrow> snd (quiz r s d) = s"
  by (auto simp: quiz_def Let_def)

lemma quiz_inv:
  assumes "session_inv (s, d)"
  shows "session_inv (snd (quiz r s d), d)"
proof (cases "eligible d = [] \<or> length (eligible d) < 3 \<or> truthy (all_shown s)")
  case True
  then show ?thesis
    using assms by (simp add: quiz_unchanged)
next
  case False
  then have e: "3 \<le> length (eligible d)" and a: "\<not> truthy (all_shown s)"
    by auto
  have rem: "next_remaining s d \<noteq> []" "distinct (next_remaining s d)"
    "set (next_remaining s d) \<subseteq> p_id ` set (people d)"
    using next_remaining_props [OF assms e a] by auto
  have al: "all_shown s = None"
    using assms a by (auto simp: session_inv_def truthy_def split: option.splits)
  show ?thesis
    using assms rem al random_choice_in [OF rem(1), of "choice_r r"]
    by (simp add: quiz_session [OF assms e a] session_inv_def score_of_def history_of_def)
qed

lemma guess_pending:
  assumes "session_inv (s, d)" and "correct_person_id s = Some c"
  shows "\<exists>rem p. remaining_people s = Some (Some rem) \<and> c \<in> set rem \<and> distinct rem \<and>
           current_person_id s = Some c \<and> all_shown s = None \<and>
           person_by_id d c = Some p \<and> p_id p = c"
proof -
  from assms obtain rem where r: "remaining_people s = Some (Some rem)" "c \<in> set rem"
      "distinct rem" "current_person_id s = Some c" "all_shown s = None"
      "set rem \<subseteq> p_id ` set (people d)"
    by (auto simp: session_inv_def split: option.splits)
  then obtain p where "person_by_id d c = Some p \<and> p_id p = c"
    using person_by_id_Some [of c d] by auto
  with r show ?thesis by auto
qed


lemma guess_scored:
  assumes "session_inv (s, d)" and "correct_person_id s = Some c"
    and "remaining_people s = Some (Some rem)" and "person_by_id d c = Some p"
  shows "guess ch s d =
     (let res = (ch = Some (p_name p));
          sc = \<lparr>sc_right = (if res then sc_right (score_of s) + 1 else sc_right (score_of s)),
                sc_total = sc_total (score_of s) + 1\<rparr>;
          tr = (case current_track_ids s of None \<Rightarrow> [] | Some t \<Rightarrow> t)
      in (Json ch (p_name p) res sc (remove1 c rem = []),
          s\<lparr>score := Some sc,
            remaining_people := (if remove1 c rem \<noteq> [] then Some (Some (remove1 c rem)) else Some None),
            all_shown := (if remove1 c rem \<noteq> [] then None else Some True),
            history := Some (history_of s @
               [\<lparr>chosen = ch, correct = p_name p, is_right = res, round_tracks = tr\<rparr>]),
            current_track_ids := None, correct_person_id := None,
            last_result := Some \<lparr>chosen = ch, correct = p_name p, is_right = res\<rparr>\<rparr>,
          d\<lparr>person_stats := (person_stats d)(c \<mapsto> bump_stats res (person_stats d c))\<rparr>))"
proof -
  from guess_pending [OF assms(1,2)] assms(3)
  have f: "c \<in> set rem" "current_person_id s = Some c" "all_shown s = None"
    by auto
  show ?thesis
    using f assms(2,3,4)
    by (simp add: guess_def Let_def history_of_def truthy_def)
qed

lemma guess_inv:
  assumes "session_inv (s, d)"
  shows "session_inv (snd (guess ch s d))"
proof (cases "correct_person_id s")
  case None
  then show ?thesis
    using assms by (simp add: guess_def)
next
  case (Some c)
  from guess_pending [OF assms Some] obtain rem p where
    f: "remaining_people s = Some (Some rem)" "c \<in> set rem" "distinct rem"
       "person_by_id d c = Some p"
    by auto
  have sub: "set (remove1 c rem) \<subseteq> set rem"
    by (rule set_remove1_subset)
  show ?thesis
    using assms f sub
    by (auto simp: guess_scored [OF assms Some f(1) f(4)] Let_def session_inv_def
        score_of_def history_of_def wf_db_def)
qed

lemma session_inv_frame:
  assumes "session_inv (s, d)" and "people d' = people d"
    and "remaining_people s' = remaining_people s" and "all_shown s' = all_shown s"
    and "correct_person_id s' = correct_person_id s"
    and "current_person_id s' = current_person_id s"
    and "score s' = score s" and "history s' = history s"
  shows "session_inv (s', d')"
  using assms
  by (simp add: session_inv_def score_of_def history_of_def wf_db_def split: option.splits)

lemma enter_name_post_inv:
  assumes "session_inv (s, d)"
  shows "session_inv (snd (enter_name_post n t s d))"
proof -
  obtain resp s' d' where e: "enter_name_post n t s d = (resp, s', d')"
    by (cases "enter_name_post n t s d")
  then have "s' = s \<or> s' = s\<lparr>name_submitted := Some True\<rparr>" and "people d' = people d"
    by (auto simp: enter_name_post_def Let_def split: if_splits sum.splits)
  then have "session_inv (s', d')"
    using assms by (auto intro: session_inv_frame)
  then show ?thesis
    by (simp add: e)
qed

lemma skip_name_inv:
  assumes "session_inv (s, d)"
  shows "session_inv (snd (skip_name s), d)"
proof -
  have "snd (skip_name s) = s \<or> snd (skip_name s) = s\<lparr>name_submitted := Some True\<rparr>"
    by (simp add: skip_name_def)
  then show ?thesis
    using assms by (auto intro: session_inv_frame)
qed

lemma handle_inv:
  assumes "session_inv (s, d)"
  shows "session_inv (snd (handle rq s d))"
proof (cases rq)
  case (Quiz r)
  then show ?thesis
    using quiz_inv [OF assms, of r] by (simp add: split_def Let_def)
next
  case (Guess c)
  then show ?thesis
    using guess_inv [OF assms, of c] by simp
next
  case (Enter_name_post n t)
  then show ?thesis
    using enter_name_post_inv [OF assms, of n t] by simp
next
  case Skip_name
  then show ?thesis
    using skip_name_inv [OF assms] by (simp add: split_def Let_def)
next
  case Reset
  then show ?thesis
    using assms
    by (auto simp: reset_def session_inv_def score_of_def history_of_def)
qed (use assms in auto)

lemma env_inv:
  assumes "session_inv (s, d)" and "db_evolves d d'"
  shows "session_inv (s, d')"
proof -
  have "set (people d) \<subseteq> set (people d')"
    using assms(2) set_take_subset [of "length (people d)" "people d'"]
    by (auto simp: db_evolves_def)
  then have "p_id ` set (people d) \<subseteq> p_id ` set (people d')"
    by (rule image_mono)
  then have "\<And>rem. set rem \<subseteq> p_id ` set (people d) \<Longrightarrow> set rem \<subseteq> p_id ` set (people d')"
    by (rule order_trans [rotated])
  then show ?thesis
    using assms by (simp add: session_inv_def db_evolves_def split: option.splits)
qed

lemma step_inv: "session_inv w \<Longrightarrow> session_inv (step w ev)"
proof (cases w; cases ev)
  fix s d rq
  assume "session_inv w" "w = (s, d)" "ev = Request rq"
  then show ?thesis
    using handle_inv [of s d rq] by simp
next
  fix s d d'
  assume "session_inv w" "w = (s, d)" "ev = Env d'"
  then show ?thesis
    using env_inv [of s d d'] by simp
qed

lemma reachable_inv: "reachable w \<Longrightarrow> session_inv w"
proof (induction rule: reachable.induct)
  case (reachable_start d ks)
  then show ?case
    by (simp add: session_inv_def empty_session_def score_of_def history_of_def)
next
  case (reachable_step w ev)
  then show ?case
    by (simp add: step_inv)
qed

lemma reachable_run: "reachable w \<Longrightarrow> reachable (run w evs)"
  by (induction evs arbitrary: w) (simp_all add: reachable_step)

lemma wf_ex_db: "wf_db ex_db"
  by (simp add: wf_db_def ex_db_def)

lemma reachable_ex_start: "reachable (empty_session, ex_db)"
  using reachable_start [OF wf_ex_db, of "[]"] by (simp add: empty_session_def)

lemma reachable_ex_pending: "reachable (ex_pending, ex_db)"
  using reachable_step [OF reachable_ex_start, of "Request (Quiz (ex_rnd 0))"]
  by (simp add: ex_pending_def split_def Let_def)

subsection \<open>Rounds of a session\<close>

lemma round_inv_frame:
  assumes "round_inv pool subj s" and "remaining_people s' = remaining_people s"
    and "all_shown s' = all_shown s" and "score s' = score s"
  shows "round_inv pool subj s'"
  using assms by (simp add: round_inv_def score_of_def split: option.splits)

lemma round_quiz:
  assumes "session_inv (s, d)" and "round_inv pool subj s"
  shows "round_inv pool subj (snd (quiz r s d))" and "\<not> scored (fst (quiz r s d))"
proof -
  show "\<not> scored (fst (quiz r s d))"
    by (auto simp: quiz_def Let_def scored_def split: option.splits sum.splits)
  show "round_inv pool subj (snd (quiz r s d))"
  proof (cases "eligible d = [] \<or> length (eligible d) < 3 \<or> truthy (all_shown s)")
    case True
    then show ?thesis
      using assms(2) by (simp add: quiz_unchanged)
  next
    case False
    then have e: "3 \<le> length (eligible d)" and a: "\<not> truthy (all_shown s)"
      by auto
    from assms(2) a obtain rem where "remaining_people s = Some (Some rem)"
      by (auto simp: round_inv_def split: option.splits)
    then have "remaining_people (snd (quiz r s d)) = remaining_people s"
      by (simp add: quiz_session [OF assms(1) e a] next_remaining_def)
    then show ?thesis
      using assms(2) by (auto intro: round_inv_frame simp: quiz_session [OF assms(1) e a])
  qed
qed

lemma round_guess_stale:
  assumes "correct_person_id s = None"
  shows "snd (guess ch s d) = (s, d)" and "\<not> scored (fst (guess ch s d))"
  using assms by (simp_all add: guess_def scored_def)

lemma round_guess_scored:
  assumes "session_inv (s, d)" and "round_inv pool subj s" and "correct_person_id s = Some c"
  shows "round_inv pool (subj @ [c]) (fst (snd (guess ch s d)))" and "scored (fst (guess ch s d))"
proof -
  from guess_pending [OF assms(1,3)] obtain rem p where
    f: "remaining_people s = Some (Some rem)" "c \<in> set rem" "distinct rem"
       "person_by_id d c = Some p"
    by auto
  note g = guess_scored [OF assms(1,3) f(1) f(4), of ch]
  show "scored (fst (guess ch s d))"
    by (simp add: g Let_def scored_def)
  from assms(2) f(1) have r: "distinct subj" "sc_total (score_of s) = int (length subj)"
      "set rem \<union> set subj = set pool" "set rem \<inter> set subj = {}"
    by (auto simp: round_inv_def)
  have c: "c \<notin> set subj"
    using r(4) f(2) by auto
  have s1: "set (remove1 c rem) = set rem - {c}"
    using f(3) by simp
  have d1: "distinct (remove1 c rem)"
    using f(3) by simp
  show "round_inv pool (subj @ [c]) (fst (snd (guess ch s d)))"
  proof (cases "remove1 c rem = []")
    case True
    then have "set rem = {c}"
      using s1 f(2) by auto
    then show ?thesis
      using True r c by (auto simp: g Let_def round_inv_def score_of_def truthy_def)
  next
    case False
    then show ?thesis
      using r c s1 d1 f(2)
      by (auto simp: g Let_def round_inv_def score_of_def truthy_def)
  qed
qed


lemma round_step:
  assumes "session_inv w" and "round_inv pool subj (fst w)" and "ev \<noteq> Request Reset"
  shows "round_inv pool (subj @ scored_subject w ev) (fst (step w ev))"
proof (cases w)
  case (Pair s d)
  note w = Pair
  show ?thesis
  proof (cases ev)
    case (Env d')
    then show ?thesis
      using assms(2) w by (simp add: scored_subject_def)
  next
    case (Request rq)
    note ev = Request
    have inv: "session_inv (s, d)" and rnd: "round_inv pool subj s"
      using assms(1,2) w by auto
    show ?thesis
    proof (cases rq)
      case (Quiz r)
      then show ?thesis
        using round_quiz [OF inv rnd, of r] w ev
        by (simp add: scored_subject_def split_def Let_def)
    next
      case (Guess ch)
      show ?thesis
      proof (cases "correct_person_id s")
        case None
        then show ?thesis
          using round_guess_stale [OF None, of ch d] rnd w ev Guess
          by (simp add: scored_subject_def)
      next
        case (Some c)
        then show ?thesis
          using round_guess_scored [OF inv rnd Some, of ch] w ev Guess
          by (simp add: scored_subject_def)
      qed
    next
      case (Enter_name_post n t)
      have "\<not> scored (fst (enter_name_post n t s d))"
        by (auto simp: enter_name_post_def Let_def scored_def split: sum.splits)
      moreover have "fst (snd (enter_name_post n t s d)) = s \<or>
          fst (snd (enter_name_post n t s d)) = s\<lparr>name_submitted := Some True\<rparr>"
        by (auto simp: enter_name_post_def Let_def split: sum.splits)
      ultimately show ?thesis
        using rnd w ev Enter_name_post
        by (auto simp: scored_subject_def intro: round_inv_frame)
    next
      case Skip_name
      have "snd (skip_name s) = s \<or> snd (skip_name s) = s\<lparr>name_submitted := Some True\<rparr>"
        by (simp add: skip_name_def)
      then show ?thesis
        using rnd w ev Skip_name
        by (auto simp: scored_subject_def scored_def skip_name_def Let_def
            intro: round_inv_frame)
    next
      case Reset
      then show ?thesis
        using assms(3) ev by simp
    qed (use rnd w ev in \<open>auto simp: scored_subject_def scored_def finished_def
          enter_name_get_def leaderboard_page_def\<close>)
  qed
qed

lemma round_run:
  assumes "session_inv w" and "round_inv pool subj (fst w)" and "Request Reset \<notin> set evs"
  shows "round_inv pool (subj @ scored_subjects w evs) (fst (run w evs))"
  using assms
proof (induction evs arbitrary: w subj)
  case Nil
  then show ?case by simp
next
  case (Cons ev evs)
  have "round_inv pool (subj @ scored_subject w ev) (fst (step w ev))"
    using Cons.prems by (auto intro: round_step)
  moreover have "session_inv (step w ev)"
    using Cons.prems(1) by (rule step_inv)
  ultimately have "round_inv pool ((subj @ scored_subject w ev) @ scored_subjects (step w ev) evs)
      (fst (run (step w ev) evs))"
    using Cons.prems(3) by (intro Cons.IH) auto
  then show ?case by simp
qed

lemma round_start:
  assumes "session_inv (s, d)" and "remaining_people s = None" and "3 \<le> length (eligible d)"
  shows "round_inv (map p_id (eligible d)) [] (snd (quiz r s d))"
    and "\<not> scored (fst (quiz r s d))"
proof -
  show "\<not> scored (fst (quiz r s d))"
    by (auto simp: quiz_def Let_def scored_def split: option.splits sum.splits)
  have a: "\<not> truthy (all_shown s)" and sc: "score s = None"
    using assms(1,2) by (auto simp: session_inv_def truthy_def)
  have wf: "wf_db d"
    using assms(1) by (simp add: session_inv_def)
  have ne: "eligible d \<noteq> []"
    using assms(3) by auto
  show "round_inv (map p_id (eligible d)) [] (snd (quiz r s d))"
    using assms(2) sc ne distinct_eligible [OF wf] a
    by (simp add: quiz_session [OF assms(1,3) a] round_inv_def next_remaining_def score_of_def)
qed

lemma round_inv_counts:
  assumes "round_inv pool subj s" and "distinct pool"
  shows "set subj \<subseteq> set pool"
    and "truthy (all_shown s) \<longleftrightarrow> length subj = length pool"
    and "truthy (all_shown s) \<longleftrightarrow> remaining_people s = Some None"
    and "\<not> truthy (all_shown s) \<Longrightarrow>
         \<exists>rem. remaining_people s = Some (Some rem) \<and> rem \<noteq> [] \<and> distinct rem \<and>
           set rem = set pool - set subj \<and> length rem + length subj = length pool"
proof -
  have ds: "distinct subj"
    using assms(1) by (simp add: round_inv_def)
  show "set subj \<subseteq> set pool"
    using assms(1) by (auto simp: round_inv_def split: option.splits)
  show "truthy (all_shown s) \<longleftrightarrow> remaining_people s = Some None"
    using assms(1) by (auto simp: round_inv_def split: option.splits)
  have un: "\<And>rem. remaining_people s = Some (Some rem) \<Longrightarrow>
      distinct rem \<and> rem \<noteq> [] \<and> set rem = set pool - set subj \<and>
      length rem + length subj = length pool"
  proof -
    fix rem
    assume "remaining_people s = Some (Some rem)"
    then have r: "distinct rem" "rem \<noteq> []" "set rem \<union> set subj = set pool"
        "set rem \<inter> set subj = {}"
      using assms(1) by (auto simp: round_inv_def)
    have "distinct (rem @ subj)"
      using r ds by simp
    then have "length (rem @ subj) = card (set (rem @ subj))"
      by (simp only: distinct_card)
    also have "\<dots> = card (set pool)"
      using r(3) by simp
    also have "\<dots> = length pool"
      using assms(2) by (simp only: distinct_card)
    finally have "length rem + length subj = length pool"
      by simp
    then show "distinct rem \<and> rem \<noteq> [] \<and> set rem = set pool - set subj \<and>
      length rem + length subj = length pool"
      using r by auto
  qed
  show "truthy (all_shown s) \<longleftrightarrow> length subj = length pool"
  proof (cases "remaining_people s")
    case None
    then show ?thesis
      using assms(1) by (simp add: round_inv_def)
  next
    case (Some v)
    show ?thesis
    proof (cases v)
      case None
      then have "truthy (all_shown s)" and "set subj = set pool"
        using assms(1) Some by (auto simp: round_inv_def)
      then show ?thesis
        using ds assms(2) by (metis distinct_card)
    next
      case (Some rem)
      then have rp: "remaining_people s = Some (Some rem)"
        using \<open>remaining_people s = Some v\<close> by simp
      have "\<not> truthy (all_shown s)"
        using assms(1) rp by (simp add: round_inv_def)
      moreover have "length subj \<noteq> length pool"
        using un [OF rp] by (cases rem) auto
      ultimately show ?thesis by simp
    qed
  qed
  show "\<exists>rem. remaining_people s = Some (Some rem) \<and> rem \<noteq> [] \<and> distinct rem \<and>
           set rem = set pool - set subj \<and> length rem + length subj = length pool"
    if "\<not> truthy (all_shown s)"
  proof -
    from assms(1) that obtain rem where rp: "remaining_people s = Some (Some rem)"
      by (auto simp: round_inv_def split: option.splits)
    then show ?thesis
      using un [OF rp] by auto
  qed
qed

lemma guess_removes_subject:
  assumes "session_inv (s, d)" and "correct_person_id s = Some c"
  shows "\<exists>rem. remaining_people s = Some (Some rem) \<and> c \<in> set rem \<and>
              scored (fst (guess ch s d)) \<and>
              set (remove1 c rem) = set rem - {c} \<and>
              Suc (length (remove1 c rem)) = length rem \<and>
              remaining_people (fst (snd (guess ch s d))) =
                (if remove1 c rem = [] then Some None else Some (Some (remove1 c rem))) \<and>
              (truthy (all_shown (fst (snd (guess ch s d)))) \<longleftrightarrow> remove1 c rem = [])"
proof -
  from guess_pending [OF assms] obtain rem p where
    f: "remaining_people s = Some (Some rem)" "c \<in> set rem" "distinct rem"
       "person_by_id d c = Some p"
    by auto
  note gs = guess_scored [OF assms f(1) f(4), of ch]
  have "Suc (length (remove1 c rem)) = length rem"
    using f(2) by (simp add: length_remove1) (cases rem; simp)
  then show ?thesis
    using f by (auto simp: gs Let_def scored_def truthy_def)
qed

text \<open>
  C1, amended.  A session starts at a round request made while \<open>remaining_people\<close> is
  absent and at least three players are eligible; the pool is the list of their ids.
  Along every run from there without a reset: the subjects of the scored guesses are
  distinct members of the pool, the score's total is their number, \<open>all_shown\<close> is set
  exactly when that number has reached the size of the pool, which is exactly when guess
  has emptied the remaining list, and until then the remaining list holds exactly the
  players of the pool that are not among the subjects.  A guess on a pending round is
  always scored, its subject is in the remaining list, and it removes exactly this one
  id.  So no player is the subject of two scored rounds; a player can be drawn more than
  once, because a round request draws again while a round is pending.
\<close>

theorem scored_rounds_equal_eligible:
  assumes "reachable (s0, d0)" and "remaining_people s0 = None"
    and "3 \<le> length (eligible d0)" and "Request Reset \<notin> set evs"
  shows
    "let pool = map p_id (eligible d0);
         subj = scored_subjects (s0, d0) (Request (Quiz r) # evs);
         s = fst (run (s0, d0) (Request (Quiz r) # evs));
         d = snd (run (s0, d0) (Request (Quiz r) # evs))
     in distinct subj \<and> set subj \<subseteq> set pool \<and>
        sc_total (score_of s) = int (length subj) \<and>
        (truthy (all_shown s) \<longleftrightarrow> length subj = length pool) \<and>
        (truthy (all_shown s) \<longleftrightarrow> remaining_people s = Some None) \<and>
        (truthy (all_shown s) \<or>
         (\<exists>rem. remaining_people s = Some (Some rem) \<and> rem \<noteq> [] \<and> distinct rem \<and>
            set rem = set pool - set subj \<and> length rem + length subj = length pool)) \<and>
        (\<forall>c ch. correct_person_id s = Some c \<longrightarrow>
           (\<exists>rem. remaining_people s = Some (Some rem) \<and> c \<in> set rem \<and>
              scored (fst (guess ch s d)) \<and>
              set (remove1 c rem) = set rem - {c} \<and>
              Suc (length (remove1 c rem)) = length rem \<and>
              remaining_people (fst (snd (guess ch s d))) =
                (if remove1 c rem = [] then Some None else Some (Some (remove1 c rem))) \<and>
              (truthy (all_shown (fst (snd (guess ch s d)))) \<longleftrightarrow> remove1 c rem = [])))"
proof -
  let ?pool = "map p_id (eligible d0)"
  let ?evs = "Request (Quiz r) # evs"
  let ?w1 = "step (s0, d0) (Request (Quiz r))"
  let ?subj = "scored_subjects (s0, d0) ?evs"
  let ?s = "fst (run (s0, d0) ?evs)"
  let ?d = "snd (run (s0, d0) ?evs)"
  have inv0: "session_inv (s0, d0)"
    using assms(1) by (rule reachable_inv)
  have dp: "distinct ?pool"
    using inv0 by (auto simp: session_inv_def intro: distinct_eligible)
  have w1: "?w1 = (snd (quiz r s0 d0), d0)"
    by (simp add: split_def Let_def)
  have inv1: "session_inv ?w1"
    using inv0 by (rule step_inv)
  have r1: "round_inv ?pool [] (fst ?w1)"
    using round_start(1) [OF inv0 assms(2,3), of r] w1 by simp
  have s0: "scored_subject (s0, d0) (Request (Quiz r)) = []"
    using round_start(2) [OF inv0 assms(2,3), of r]
    by (simp add: scored_subject_def split_def Let_def)
  have "round_inv ?pool ([] @ scored_subjects ?w1 evs) (fst (run ?w1 evs))"
    using inv1 r1 assms(4) by (rule round_run)
  then have ri: "round_inv ?pool ?subj ?s"
    using s0 by simp
  have "session_inv (run (s0, d0) ?evs)"
    by (rule reachable_inv [OF reachable_run [OF assms(1)]])
  then have inv: "session_inv (?s, ?d)"
    by (simp only: prod.collapse)
  note cnt = round_inv_counts [OF ri dp]
  have f1: "distinct ?subj" and f3: "sc_total (score_of ?s) = int (length ?subj)"
    using ri by (simp_all only: round_inv_def)
  have f6: "truthy (all_shown ?s) \<or>
         (\<exists>rem. remaining_people ?s = Some (Some rem) \<and> rem \<noteq> [] \<and> distinct rem \<and>
            set rem = set ?pool - set ?subj \<and> length rem + length ?subj = length ?pool)"
    using cnt(4) by blast
  have f7: "\<forall>c ch. correct_person_id ?s = Some c \<longrightarrow>
           (\<exists>rem. remaining_people ?s = Some (Some rem) \<and> c \<in> set rem \<and>
              scored (fst (guess ch ?s ?d)) \<and>
              set (remove1 c rem) = set rem - {c} \<and>
              Suc (length (remove1 c rem)) = length rem \<and>
              remaining_people (fst (snd (guess ch ?s ?d))) =
                (if remove1 c rem = [] then Some None else Some (Some (remove1 c rem))) \<and>
              (truthy (all_shown (fst (snd (guess ch ?s ?d)))) \<longleftrightarrow> remove1 c rem = []))"
    using guess_removes_subject [OF inv] by blast
  show ?thesis
    unfolding Let_def
    by (intro conjI f1 cnt(1) f3 cnt(2) cnt(3) f6 f7)
qed

theorem scored_rounds_equal_eligible_witness:
  "reachable (empty_session, ex_db) \<and> remaining_people empty_session = None \<and>
   3 \<le> length (eligible ex_db) \<and> Request Reset \<notin> set ex_rest \<and>
   map p_id (eligible ex_db) = [1, 2, 3] \<and>
   scored_subjects (empty_session, ex_db) (Request (Quiz (ex_rnd 0)) # ex_rest) = [1, 2, 3] \<and>
   truthy (all_shown (fst (run (empty_session, ex_db) (Request (Quiz (ex_rnd 0)) # ex_rest)))) \<and>
   sc_total (score_of (fst (run (empty_session, ex_db) (Request (Quiz (ex_rnd 0)) # ex_rest)))) = 3"
proof -
  have h1: "reachable (empty_session, ex_db)"
    by (rule reachable_ex_start)
  have h2: "remaining_people empty_session = None"
    by (simp add: empty_session_def)
  have h3: "3 \<le> length (eligible ex_db)"
    by code_simp
  have h4: "Request Reset \<notin> set ex_rest"
    by (simp add: ex_rest_def)
  have e1: "map p_id (eligible ex_db) = [1, 2, 3]"
    by code_simp
  have e2: "scored_subjects (empty_session, ex_db) (Request (Quiz (ex_rnd 0)) # ex_rest) = [1, 2, 3]"
    by code_simp
  have "truthy (all_shown (fst (run (empty_session, ex_db) (Request (Quiz (ex_rnd 0)) # ex_rest)))) \<and>
   sc_total (score_of (fst (run (empty_session, ex_db) (Request (Quiz (ex_rnd 0)) # ex_rest)))) = 3"
    using scored_rounds_equal_eligible [OF h1 h2 h3 h4, of "ex_rnd 0"]
    unfolding Let_def e1 e2 by simp
  then show ?thesis
    using h1 h2 h3 h4 e1 e2 by blast
qed

theorem participant_drawn_twice_counterexample:
  "correct_person_id (fst (run (empty_session, ex_db) [Request (Quiz (ex_rnd 0))])) = Some 1 \<and>
   correct_person_id
     (fst (run (empty_session, ex_db) [Request (Quiz (ex_rnd 0)), Request (Quiz (ex_rnd 1))])) =
     Some 2 \<and>
   scored_subjects (empty_session, ex_db)
     [Request (Quiz (ex_rnd 0)), Request (Quiz (ex_rnd 1)), Request (Guess (Some ''B''))] = [2] \<and>
   correct_person_id
     (fst (run (empty_session, ex_db)
        [Request (Quiz (ex_rnd 0)), Request (Quiz (ex_rnd 1)), Request (Guess (Some ''B'')),
         Request (Quiz (ex_rnd 0))])) = Some 1"
  by code_simp

subsection \<open>A round requested again\<close>

text \<open>
  C2, amended.  quiz never looks at a pending round: a round request made while a round
  is pending draws again.  The new subject is the element of the unchanged remaining list
  that \<open>random.choice\<close> picks, it replaces the pending round in the session, and the page
  shows its tracks and its name shuffled with two freshly sampled other names.  The
  remaining list, the score and the history stay as they were.  The progress percent is
  a float computation; its only failure is an overflow.
\<close>

theorem quiz_redraws_pending_round:
  assumes "reachable (s, d)" and "correct_person_id s = Some c" and "3 \<le> length (eligible d)"
  shows
    "\<exists>rem p. remaining_people s = Some (Some rem) \<and> c \<in> set rem \<and>
       random_choice (choice_r r) rem \<in> set rem \<and>
       person_by_id d (random_choice (choice_r r) rem) = Some p \<and>
       correct_person_id (snd (quiz r s d)) = Some (random_choice (choice_r r) rem) \<and>
       current_track_ids (snd (quiz r s d)) = Some (tracks_of d (random_choice (choice_r r) rem)) \<and>
       remaining_people (snd (quiz r s d)) = Some (Some rem) \<and>
       score (snd (quiz r s d)) = score s \<and> history (snd (quiz r s d)) = history s \<and>
       (case fst (quiz r s d) of
          Page_quiz tids names pr \<Rightarrow>
            tids = tracks_of d (random_choice (choice_r r) rem) \<and>
            names =
              random_shuffle3 (shuffle_r1 r) (shuffle_r2 r)
                (p_name p #
                 random_sample2 (sample_r1 r) (sample_r2 r)
                   (map p_name
                      (filter (\<lambda>q. p_id q \<noteq> random_choice (choice_r r) rem) (eligible d))))
        | Server_error err \<Rightarrow> err = OverflowError
        | _ \<Rightarrow> False)"
proof -
  have inv: "session_inv (s, d)"
    using assms(1) by (rule reachable_inv)
  from guess_pending [OF inv assms(2)] obtain rem where
    f: "remaining_people s = Some (Some rem)" "c \<in> set rem" "all_shown s = None"
    by auto
  have a: "\<not> truthy (all_shown s)"
    using f(3) by (simp add: truthy_def)
  have nx: "next_remaining s d = rem"
    using f(1) by (simp add: next_remaining_def)
  let ?pid = "random_choice (choice_r r) rem"
  have rem: "rem \<noteq> []" and sub: "set rem \<subseteq> p_id ` set (people d)"
    using next_remaining_props [OF inv assms(3) a] nx by auto
  have pin: "?pid \<in> set rem"
    using rem by (rule random_choice_in)
  then obtain p where p: "person_by_id d ?pid = Some p"
    using sub person_by_id_Some by blast
  have wf: "wf_db d"
    using inv by (simp add: session_inv_def)
  have oth: "\<not> length (filter (\<lambda>p. p_id p \<noteq> ?pid) (eligible d)) < 2"
    using others_ge2 [OF wf assms(3), of ?pid] by simp
  have ne: "eligible d \<noteq> []" "\<not> length (eligible d) < 3"
    using assms(3) by auto
  have pe: "\<And>a b err. percent_of a b = Inl err \<Longrightarrow> err = OverflowError"
    by (auto simp: percent_of_def py_truediv_def py_int_def Let_def split_def
        split: if_splits sum.splits)
  have resp: "case fst (quiz r s d) of
          Page_quiz tids names pr \<Rightarrow>
            tids = tracks_of d ?pid \<and>
            names =
              random_shuffle3 (shuffle_r1 r) (shuffle_r2 r)
                (p_name p #
                 random_sample2 (sample_r1 r) (sample_r2 r)
                   (map p_name (filter (\<lambda>q. p_id q \<noteq> ?pid) (eligible d))))
        | Server_error err \<Rightarrow> err = OverflowError
        | _ \<Rightarrow> False"
    using ne rem p oth a f(1)
    unfolding quiz_def Let_def
    by (auto split: sum.splits dest: pe)
  show ?thesis
    using f pin p resp
    by (simp add: quiz_session [OF inv assms(3) a] nx)
qed

theorem quiz_redraws_pending_round_witness:
  "reachable (ex_pending, ex_db) \<and> correct_person_id ex_pending = Some 1 \<and>
   3 \<le> length (eligible ex_db) \<and>
   remaining_people ex_pending = Some (Some [1, 2, 3]) \<and>
   correct_person_id (snd (quiz (ex_rnd 1) ex_pending ex_db)) = Some 2 \<and>
   remaining_people (snd (quiz (ex_rnd 1) ex_pending ex_db)) = Some (Some [1, 2, 3])"
proof -
  have h1: "reachable (ex_pending, ex_db)"
    by (rule reachable_ex_pending)
  have h2: "correct_person_id ex_pending = Some 1"
    by code_simp
  have h3: "3 \<le> length (eligible ex_db)"
    by code_simp
  have e1: "remaining_people ex_pending = Some (Some [1, 2, 3])"
    by code_simp
  have e2: "random_choice (choice_r (ex_rnd 1)) [1, 2, 3 :: nat] = 2"
    by code_simp
  from quiz_redraws_pending_round [OF h1 h2 h3, of "ex_rnd 1"]
  obtain rem where r: "remaining_people ex_pending = Some (Some rem)"
    "correct_person_id (snd (quiz (ex_rnd 1) ex_pending ex_db)) =
       Some (random_choice (choice_r (ex_rnd 1)) rem)"
    "remaining_people (snd (quiz (ex_rnd 1) ex_pending ex_db)) = Some (Some rem)"
    by blast
  have "rem = [1, 2, 3]"
    using r(1) e1 by simp
  then show ?thesis
    using h1 h2 h3 e1 e2 r(2,3) by simp
qed

theorem quiz_pending_redraw_counterexample:
  "correct_person_id (snd (quiz (ex_rnd 0) empty_session ex_db4)) = Some 1 \<and>
   fst (quiz (ex_rnd 0) empty_session ex_db4) =
     Page_quiz [''abc'', ''xyz'', ''a3''] [''B'', ''C'', ''A'']
       \<lparr>pr_score = \<lparr>sc_right = 0, sc_total = 0\<rparr>, pr_total_people = 4, pr_percent = 0\<rparr> \<and>
   correct_person_id (snd (quiz ex_rnd_b (snd (quiz (ex_rnd 0) empty_session ex_db4)) ex_db4)) =
     Some 2 \<and>
   fst (quiz ex_rnd_b (snd (quiz (ex_rnd 0) empty_session ex_db4)) ex_db4) =
     Page_quiz [''abc'', ''b2'', ''b3''] [''D'', ''A'', ''B'']
       \<lparr>pr_score = \<lparr>sc_right = 0, sc_total = 0\<rparr>, pr_total_people = 4, pr_percent = 0\<rparr>"
  by code_simp

subsection \<open>A guess with no pending round\<close>

text \<open>
  C8.  A guess submitted when the session holds no \<open>correct_person_id\<close> is answered by a
  redirect to the quiz route, without an exception; the session (score, history,
  remaining list and every other key) and the store (the guess statistics with it) are
  returned as they were.
\<close>

theorem guess_without_pending_round:
  "correct_person_id s = None \<Longrightarrow> guess c s d = (Redirect ''quiz'', s, d)"
  by (simp add: guess_def)

theorem guess_without_pending_round_witness:
  "correct_person_id empty_session = None \<and>
   guess (Some ''A'') empty_session ex_db = (Redirect ''quiz'', empty_session, ex_db)"
proof -
  have h: "correct_person_id empty_session = None"
    by (simp add: empty_session_def)
  show ?thesis
    using h guess_without_pending_round [OF h, of "Some ''A''" ex_db] by simp
qed

subsection \<open>Score and history\<close>

text \<open>
  C9.  In every reachable session the score's total is the length of the history and
  the score's right is the number of history entries with \<open>is_right\<close>, so right is at
  most total.  A request is scored exactly when it is a guess on a pending round; a
  scored request appends one entry to the history, adds one to total and adds one to
  right exactly when the entry is right.  reset empties history and score together.
  Every other request leaves both as they were.
\<close>

theorem score_matches_history:
  assumes "reachable (s, d)"
  shows
    "let resp = fst (handle rq s d); s' = fst (snd (handle rq s d))
     in sc_total (score_of s) = int (length (history_of s)) \<and>
        sc_right (score_of s) = int (length (filter is_right (history_of s))) \<and>
        sc_right (score_of s) \<le> sc_total (score_of s) \<and>
        (scored resp \<longleftrightarrow> (\<exists>ch. rq = Guess ch) \<and> correct_person_id s \<noteq> None) \<and>
        (if scored resp
         then \<exists>e. history_of s' = history_of s @ [e] \<and>
                sc_total (score_of s') = sc_total (score_of s) + 1 \<and>
                sc_right (score_of s') = sc_right (score_of s) + (if is_right e then 1 else 0)
         else if rq = Reset
         then history_of s' = [] \<and> score_of s' = \<lparr>sc_right = 0, sc_total = 0\<rparr>
         else history_of s' = history_of s \<and> score_of s' = score_of s)"
proof -
  have inv: "session_inv (s, d)"
    using assms by (rule reachable_inv)
  then have i: "sc_total (score_of s) = int (length (history_of s))"
    "sc_right (score_of s) = int (length (filter is_right (history_of s)))"
    by (simp_all add: session_inv_def)
  have le: "sc_right (score_of s) \<le> sc_total (score_of s)"
    unfolding i by simp
  have st: "(scored (fst (handle rq s d)) \<longleftrightarrow> (\<exists>ch. rq = Guess ch) \<and> correct_person_id s \<noteq> None) \<and>
     (if scored (fst (handle rq s d))
      then \<exists>e. history_of (fst (snd (handle rq s d))) = history_of s @ [e] \<and>
             sc_total (score_of (fst (snd (handle rq s d)))) = sc_total (score_of s) + 1 \<and>
             sc_right (score_of (fst (snd (handle rq s d)))) =
               sc_right (score_of s) + (if is_right e then 1 else 0)
      else if rq = Reset
      then history_of (fst (snd (handle rq s d))) = [] \<and>
           score_of (fst (snd (handle rq s d))) = \<lparr>sc_right = 0, sc_total = 0\<rparr>
      else history_of (fst (snd (handle rq s d))) = history_of s \<and>
           score_of (fst (snd (handle rq s d))) = score_of s)"
  proof (cases rq)
    case (Quiz r)
    have "\<not> scored (fst (quiz r s d))"
      by (auto simp: quiz_def Let_def scored_def split: option.splits sum.splits)
    moreover have "history (snd (quiz r s d)) = history s \<and> score (snd (quiz r s d)) = score s"
    proof (cases "eligible d = [] \<or> length (eligible d) < 3 \<or> truthy (all_shown s)")
      case True
      then show ?thesis by (simp add: quiz_unchanged)
    next
      case False
      then show ?thesis by (simp add: quiz_session [OF inv])
    qed
    ultimately show ?thesis
      using Quiz by (simp add: split_def Let_def history_of_def score_of_def)
  next
    case (Guess ch)
    show ?thesis
    proof (cases "correct_person_id s")
      case None
      then show ?thesis
        using Guess by (simp add: guess_def scored_def)
    next
      case (Some c)
      from guess_pending [OF inv Some] obtain rem p where
        f: "remaining_people s = Some (Some rem)" "person_by_id d c = Some p"
        by auto
      show ?thesis
        using Guess Some
        by (simp add: guess_scored [OF inv Some f] Let_def scored_def history_of_def
            score_of_def)
    qed
  next
    case (Enter_name_post n t)
    then show ?thesis
      by (auto simp: enter_name_post_def Let_def scored_def history_of_def score_of_def
          split: sum.splits)
  next
    case Skip_name
    then show ?thesis
      by (auto simp: skip_name_def scored_def history_of_def score_of_def)
  next
    case Reset
    then show ?thesis
      by (auto simp: reset_def scored_def history_of_def score_of_def)
  qed (auto simp: scored_def finished_def enter_name_get_def leaderboard_page_def)
  show ?thesis
    unfolding Let_def using i le st by blast
qed

theorem score_matches_history_witness:
  "reachable (ex_pending, ex_db) \<and>
   history_of ex_pending = [] \<and> score_of ex_pending = \<lparr>sc_right = 0, sc_total = 0\<rparr> \<and>
   scored (fst (handle (Guess (Some ''A'')) ex_pending ex_db)) \<and>
   history_of (fst (snd (handle (Guess (Some ''A'')) ex_pending ex_db))) =
     [\<lparr>chosen = Some ''A'', correct = ''A'', is_right = True,
       round_tracks = [''abc'', ''xyz'', ''a3'']\<rparr>] \<and>
   sc_total (score_of (fst (snd (handle (Guess (Some ''A'')) ex_pending ex_db)))) = 1 \<and>
   sc_right (score_of (fst (snd (handle (Guess (Some ''A'')) ex_pending ex_db)))) = 1"
proof -
  have h: "reachable (ex_pending, ex_db)"
    by (rule reachable_ex_pending)
  have e1: "history_of ex_pending = []"
    by code_simp
  have e2: "score_of ex_pending = \<lparr>sc_right = 0, sc_total = 0\<rparr>"
    by code_simp
  have e3: "scored (fst (handle (Guess (Some ''A'')) ex_pending ex_db))"
    by code_simp
  have e4: "history_of (fst (snd (handle (Guess (Some ''A'')) ex_pending ex_db))) =
     [\<lparr>chosen = Some ''A'', correct = ''A'', is_right = True,
       round_tracks = [''abc'', ''xyz'', ''a3'']\<rparr>]"
    by code_simp
  let ?S = "fst (snd (handle (Guess (Some ''A'')) ex_pending ex_db))"
  note t = score_matches_history [OF h, of "Guess (Some ''A'')", unfolded Let_def]
  note i = t [THEN conjunct2, THEN conjunct2, THEN conjunct2, THEN conjunct2,
      unfolded if_P [OF e3]]
  from i obtain e where e: "history_of ?S = history_of ex_pending @ [e]"
      "sc_total (score_of ?S) = sc_total (score_of ex_pending) + 1"
      "sc_right (score_of ?S) = sc_right (score_of ex_pending) + (if is_right e then 1 else 0)"
    by blast
  have "is_right e"
    using e(1) unfolding e1 e4 by auto
  then have "sc_total (score_of ?S) = 1 \<and> sc_right (score_of ?S) = 1"
    using e(2,3) unfolding e2 by simp
  then show ?thesis
    using h e1 e2 e3 e4 by blast
qed

subsection \<open>A wrong or missing choice\<close>

text \<open>
  C10.  In a reachable session with a pending round on a player of the store, a guess
  whose choice is absent or is not the player's name is answered with the JSON result,
  with \<open>is_right\<close> false: the score's total grows by one and its right stays, the
  player's \<open>total_guesses\<close> grows by one and \<open>correct_guesses\<close> stays (a missing
  statistics row counts as zero and is inserted).
\<close>

theorem wrong_choice_scored_incorrect:
  assumes "reachable (s, d)" and "correct_person_id s = Some c"
    and "person_by_id d c = Some p" and "ch \<noteq> Some (p_name p)"
  shows "\<exists>fin s' d'.
      guess ch s d =
        (Json ch (p_name p) False
           \<lparr>sc_right = sc_right (score_of s), sc_total = sc_total (score_of s) + 1\<rparr> fin,
         s', d') \<and>
      score_of s' = \<lparr>sc_right = sc_right (score_of s), sc_total = sc_total (score_of s) + 1\<rparr> \<and>
      person_stats d' c =
        Some \<lparr>correct_guesses =
                (case person_stats d c of None \<Rightarrow> 0 | Some st \<Rightarrow> correct_guesses st),
              total_guesses =
                (case person_stats d c of None \<Rightarrow> 0 | Some st \<Rightarrow> total_guesses st) + 1\<rparr>"
proof -
  have inv: "session_inv (s, d)"
    using assms(1) by (rule reachable_inv)
  from guess_pending [OF inv assms(2)] obtain rem where
    r: "remaining_people s = Some (Some rem)"
    by auto
  show ?thesis
    using assms(4)
    by (simp add: guess_scored [OF inv assms(2) r assms(3)] Let_def score_of_def bump_stats_def
        split: option.splits)
qed

theorem wrong_choice_scored_incorrect_witness:
  "reachable (ex_pending, ex_db) \<and> correct_person_id ex_pending = Some 1 \<and>
   person_by_id ex_db 1 = Some \<lparr>p_id = 1, p_name = ''A''\<rparr> \<and>
   None \<noteq> Some (p_name \<lparr>p_id = 1, p_name = ''A''\<rparr>) \<and>
   (\<exists>fin s' d'.
      guess None ex_pending ex_db =
        (Json None ''A'' False \<lparr>sc_right = 0, sc_total = 1\<rparr> fin, s', d') \<and>
      score_of s' = \<lparr>sc_right = 0, sc_total = 1\<rparr> \<and>
      person_stats d' 1 = Some \<lparr>correct_guesses = 0, total_guesses = 1\<rparr>)"
proof -
  have h1: "reachable (ex_pending, ex_db)"
    by (rule reachable_ex_pending)
  have h2: "correct_person_id ex_pending = Some 1"
    by code_simp
  have h3: "person_by_id ex_db 1 = Some \<lparr>p_id = 1, p_name = ''A''\<rparr>"
    by code_simp
  have h4: "None \<noteq> Some (p_name \<lparr>p_id = 1, p_name = ''A''\<rparr>)"
    by simp
  have e1: "score_of ex_pending = \<lparr>sc_right = 0, sc_total = 0\<rparr>"
    by code_simp
  have e2: "person_stats ex_db (Suc 0) = None"
    by (simp add: ex_db_def)
  show ?thesis
    using h1 h2 h3 h4 wrong_choice_scored_incorrect [OF h1 h2 h3 h4]
    by (simp add: e1 e2)
qed

subsection \<open>reset\<close>

lemma reset_clears:
  "snd (reset s) =
     s\<lparr>remaining_people := None, all_shown := None, correct_person_id := None,
       last_result := None, score := None, history := None, current_track_ids := None,
       name_submitted := None\<rparr>"
  by (simp add: reset_def)

lemma reset_frame:
  "other_keys (snd (reset s)) = other_keys s \<and>
   total_people (snd (reset s)) = total_people s \<and>
   current_person_id (snd (reset s)) = current_person_id s \<and>
   snd (snd (handle Reset s d)) = d"
  by (simp add: reset_def)

text \<open>
  C4.  reset pops eight keys; \<open>total_people\<close> and \<open>current_person_id\<close> are not among
  them.  After a first round request on \<open>ex_db\<close> and a reset, the session still holds the
  snapshot \<open>total_people = 3\<close> and the drawn player's id, while the eight keys are gone.
\<close>

theorem reset_keeps_total_people:
  "total_people (snd (reset ex_pending)) = Some 3 \<and>
   current_person_id (snd (reset ex_pending)) = Some 1 \<and>
   score (snd (reset ex_pending)) = None \<and>
   remaining_people (snd (reset ex_pending)) = None"
  by code_simp

subsection \<open>Name submission\<close>

lemma skip_name_after_submission:
  "name_submitted s = Some True \<Longrightarrow> handle Skip_name s d = (Redirect ''finished'', s, d)"
  by (simp add: skip_name_def truthy_def)

text \<open>
  C3.  enter_name tests \<open>all_shown\<close> only, never \<open>name_submitted\<close>.  After a whole game on
  \<open>ex_db\<close>, two name submissions in a row leave two rows in the leaderboard.
\<close>

theorem second_name_submission_duplicates:
  "leaderboard (snd (run (empty_session, ex_db)
      (ex_play_all @
       [Request (Enter_name_post (Some ''Al'') 5), Request (Enter_name_post (Some ''Al'') 6)])))
   = [\<lparr>lb_name = ''Al'', lb_right = 2, lb_total = 3, lb_percent = 66, created_at = 5\<rparr>,
      \<lparr>lb_name = ''Al'', lb_right = 2, lb_total = 3, lb_percent = 66, created_at = 6\<rparr>]"
  by code_simp

subsection \<open>The stored percent\<close>

lemma percent_of_zero_total: "percent_of a 0 = Inr 0"
  by (simp add: percent_of_def)

lemma percent_of_2_3: "percent_of 2 3 = Inr 66"
  by (simp add: percent_of_def py_truediv_def round64_def flog2_def rdiv_even_def
      bit_length.simps is_inf_def float_mul_int_def py_int_def Let_def)

text \<open>
  C5.  The percent is computed in floating point: 29 / 50 is the float just below 0.58,
  its product with 100 is the float just below 58, and \<open>int\<close> truncates it to 57, while
  \<open>floor(29 * 100 / 50) = 58\<close>.  The row that enter_name writes holds 57.
\<close>

theorem percent_29_of_50:
  "percent_of 29 50 = Inr 57 \<and> (29 * 100) div 50 = (58 :: int) \<and>
   leaderboard (snd (snd (enter_name_post (Some ''Al'') 7 ex_done_29_of_50 ex_db)))
   = [\<lparr>lb_name = ''Al'', lb_right = 29, lb_total = 50, lb_percent = 57, created_at = 7\<rparr>]"
  by code_simp

subsection \<open>The chameleon query\<close>

lemma sort_key_head:
  assumes "sort_key f xs = y # ys"
  shows "y \<in> set xs" and "\<forall>x \<in> set xs. f y \<le> f x"
proof -
  have s: "set (sort_key f xs) = set xs"
    by simp
  show "y \<in> set xs"
    using s assms by auto
  have "sorted (map f (sort_key f xs))"
    by (rule sorted_sort_key)
  then have "\<forall>x \<in> set ys. f y \<le> f x"
    using assms by simp
  then show "\<forall>x \<in> set xs. f y \<le> f x"
    using s assms by auto
qed

lemma chameleon_rows_iff:
  "row \<in> set (chameleon_rows rate d) \<longleftrightarrow>
   (\<exists>p st. p \<in> set (people d) \<and> person_stats d (p_id p) = Some st \<and> 3 \<le> total_guesses st \<and>
      row = \<lparr>ch_name = p_name p, ch_correct = correct_guesses st, ch_total = total_guesses st,
             ch_success_rate = rate (correct_guesses st) (total_guesses st)\<rparr>)"
  by (auto simp: chameleon_rows_def split: option.splits if_splits) metis+

text \<open>
  What the query selects, for any rate in the place of the rounded column: the rows are
  exactly the players that have a statistics row with \<open>total_guesses \<ge> 3\<close>; there is no
  result exactly when there is no such row; the result is a row of minimal rate, and
  among the rows of that rate one with the highest \<open>total_guesses\<close>.
\<close>

lemma chameleon_by_minimal:
  "(chameleon_by rate d = None \<longleftrightarrow> chameleon_rows rate d = []) \<and>
   (\<forall>row. row \<in> set (chameleon_rows rate d) \<longleftrightarrow>
      (\<exists>p st. p \<in> set (people d) \<and> person_stats d (p_id p) = Some st \<and>
         3 \<le> total_guesses st \<and>
         row = \<lparr>ch_name = p_name p, ch_correct = correct_guesses st,
                ch_total = total_guesses st,
                ch_success_rate = rate (correct_guesses st) (total_guesses st)\<rparr>)) \<and>
   (\<forall>row. chameleon_by rate d = Some row \<longrightarrow>
      row \<in> set (chameleon_rows rate d) \<and>
      (\<forall>other \<in> set (chameleon_rows rate d).
         ch_success_rate row < ch_success_rate other \<or>
         (ch_success_rate row = ch_success_rate other \<and> ch_total other \<le> ch_total row)))"
proof -
  let ?key = "\<lambda>row. (ch_success_rate row, - ch_total row)"
  have a: "chameleon_by rate d = None \<longleftrightarrow> chameleon_rows rate d = []"
  proof (cases "sort_key ?key (chameleon_rows rate d)")
    case Nil
    then have "set (chameleon_rows rate d) = {}"
      by (metis set_sort list.set(1))
    then show ?thesis
      using Nil by (simp add: chameleon_by_def)
  next
    case (Cons y ys)
    then have "chameleon_rows rate d \<noteq> []"
      by auto
    then show ?thesis
      using Cons by (simp add: chameleon_by_def)
  qed
  have c: "row \<in> set (chameleon_rows rate d) \<and>
      (\<forall>other \<in> set (chameleon_rows rate d).
         ch_success_rate row < ch_success_rate other \<or>
         (ch_success_rate row = ch_success_rate other \<and> ch_total other \<le> ch_total row))"
    if "chameleon_by rate d = Some row" for row
  proof -
    from that obtain ys where "sort_key ?key (chameleon_rows rate d) = row # ys"
      by (auto simp: chameleon_by_def split: list.splits)
    from sort_key_head [OF this] show ?thesis
      by (auto simp: less_eq_prod_def)
  qed
  show ?thesis
    using a c chameleon_rows_iff [of _ rate d] by blast
qed

lemma chameleon_xyz_example:
  "chameleon xyz_db =
     Some \<lparr>ch_name = ''A'', ch_correct = 1, ch_total = 4, ch_success_rate = 25\<rparr>"
  by code_simp

text \<open>
  C6.  The query orders by the column \<open>success_rate\<close>, the percentage rounded to one
  decimal, not by the exact ratio.  A at 33 of 34 and B at 34 of 35 both round to 97.1;
  the tie goes to the higher \<open>total_guesses\<close>, and the query returns B, although the
  exact ratio of A is the smaller one.
\<close>

theorem chameleon_orders_by_rounded_rate:
  "chameleon cham_db =
     Some \<lparr>ch_name = ''B'', ch_correct = 34, ch_total = 35, ch_success_rate = 971 / 10\<rparr> \<and>
   person_stats cham_db 1 = Some \<lparr>correct_guesses = 33, total_guesses = 34\<rparr> \<and>
   person_stats cham_db 2 = Some \<lparr>correct_guesses = 34, total_guesses = 35\<rparr> \<and>
   success_rate 33 34 = 971 / 10 \<and> success_rate 34 35 = 971 / 10 \<and>
   (33 :: rat) / 34 < 34 / 35"
  by code_simp

subsection \<open>Shared tracks\<close>

text \<open>
  The result depends on the tables \<open>people\<close> and \<open>tracks\<close> only, its groups are in
  descending order of their owner lists' lengths, and every group has at least two owner
  entries.
\<close>

lemma shared_tracks_store_only:
  "people d' = people d \<Longrightarrow> tracks d' = tracks d \<Longrightarrow> shared_tracks d' = shared_tracks d"
  by (simp add: shared_tracks_def track_rows_def)

lemma shared_tracks_sorted:
  "sorted_wrt (\<lambda>g h. length (snd h) \<le> length (snd g)) (shared_tracks d) \<and>
   (\<forall>g \<in> set (shared_tracks d). 2 \<le> length (snd g))"
proof -
  let ?f = "\<lambda>g :: string \<times> string list. length (snd g)"
  have "sorted (map ?f (sort_key ?f xs))" for xs
    by (rule sorted_sort_key)
  then have "sorted_wrt (\<lambda>g h. ?f g \<le> ?f h) (sort_key ?f xs)" for xs
    by (simp add: sorted_wrt_map)
  then have "sorted_wrt (\<lambda>g h. ?f h \<le> ?f g) (sorted_reverse ?f xs)" for xs
    by (simp add: sorted_reverse_def sorted_wrt_rev)
  moreover have "set (sorted_reverse ?f xs) = set xs" for xs
    by (simp add: sorted_reverse_def)
  ultimately show ?thesis
    by (auto simp: shared_tracks_def)
qed

lemma shared_tracks_example: "shared_tracks ex_db = [(''abc'', [''A'', ''B''])]"
  by code_simp

text \<open>
  C7.  The filter keeps a group when its list of owners has more than one entry, and
  the list has one entry per track row.  A single player who entered the same track in
  two of the three fields is listed as its owner twice, and the group is kept.
\<close>

theorem shared_tracks_duplicate_owner:
  "shared_tracks dup_db = [(''abc'', [''A'', ''A''])]"
  by code_simp

end
